theory Spec2Isabelle
  imports Main "HOL-Library.Word" "HOL-Library.DAList"
begin

unbundle bit_operations_syntax

section \<open>The RPM header encoder of rpmpack (header.go)\<close>

text \<open>
  Conventions of the embedding.
  \<^item> A Go \<open>byte\<close> is an \<open>8 word\<close>, a Go \<open>int32\<close> a \<open>32 word\<close>. A Go \<open>int\<close> (tags, type
    codes, counts, lengths) is a HOL \<open>int\<close>; the only place where the width of a value
    shows is the conversion \<open>int32(x)\<close>, which keeps the low 32 bits and is written
    \<open>int32 x\<close> below.
  \<^item> A Go \<open>string\<close> is a sequence of bytes; it is a HOL \<open>string\<close>, whose characters are
    bytes, and \<open>[]byte(v)\<close> is \<open>bytes_of v\<close>.
  \<^item> The Go map \<open>entries\<close> is a finite map whose iteration order is not specified. It is
    an association list with distinct keys (\<open>alist\<close>): the order of the list stands for
    whatever order \<open>range\<close> happens to use, lookups go through \<open>DAList.lookup\<close>.
  \<^item> An \<open>io.Writer\<close> is a state together with its \<open>Write\<close> method, which returns the new
    state and the error, if any. The number of bytes that \<open>Write\<close> reports is never read
    by header.go and is left out.
  \<^item> A run-time panic (an index out of range in one of the loops of \<open>Write\<close>) is the
    result \<open>None\<close>; that it does not happen is part of what is proved.
\<close>

type_synonym byte = "8 word"
type_synonym int32 = "32 word"

definition int32 :: "int \<Rightarrow> int32" where
  "int32 x = word_of_int x"

definition bytes_of :: "string \<Rightarrow> byte list" where
  "bytes_of v = map of_char v"

subsection \<open>Constants\<close>

definition signatures :: int where "signatures = 0x3e"
definition immutable :: int where "immutable = 0x3f"

definition typeInt32 :: int where "typeInt32 = 0x04"
definition typeBinary :: int where "typeBinary = 0x07"
definition typeStringArray :: int where "typeStringArray = 0x08"

definition boundaries :: "int \<Rightarrow> int option" where
  "boundaries = Map.empty(typeInt32 \<mapsto> 4)"

subsection \<open>The parts of the Go library that header.go calls\<close>

text \<open>\<open>binary.BigEndian\<close> applied to one \<open>int32\<close>: four bytes, most significant first.\<close>

definition be32 :: "int32 \<Rightarrow> byte list" where
  "be32 x = [ucast (drop_bit 24 x), ucast (drop_bit 16 x), ucast (drop_bit 8 x), ucast x]"

text \<open>The bytes that \<open>binary.Write(w, binary.BigEndian, v)\<close> hands to \<open>w\<close> for \<open>v []int32\<close>.\<close>

definition int32s_bytes :: "int32 list \<Rightarrow> byte list" where
  "int32s_bytes v = concat (map be32 v)"

text \<open>\<open>bytes.Join\<close>: the elements with the separator between neighbours.\<close>

fun bytes_Join :: "byte list list \<Rightarrow> byte list \<Rightarrow> byte list" where
  "bytes_Join [] sep = []"
| "bytes_Join [x] sep = x"
| "bytes_Join (x # y # ys) sep = x @ sep @ bytes_Join (y # ys) sep"

text \<open>Go's \<open>%\<close> truncates towards zero.\<close>

definition go_rem :: "int \<Rightarrow> int \<Rightarrow> int" where
  "go_rem a b = sgn a * (\<bar>a\<bar> mod \<bar>b\<bar>)"

type_synonym ('s, 'e) Writer = "'s \<Rightarrow> byte list \<Rightarrow> 's \<times> 'e option"

text \<open>\<open>bytes.Buffer\<close>: the state is the content, a write appends and never fails.\<close>

definition Buffer_Write :: "(byte list, 'e) Writer" where
  "Buffer_Write b p = (b @ p, None)"

text \<open>
  \<open>binary.Write\<close> on a slice of \<open>int32\<close> encodes the slice and makes one call of the
  writer's \<open>Write\<close>, whose error it returns.
\<close>

definition binary_Write :: "('s, 'e) Writer \<Rightarrow> 's \<Rightarrow> int32 list \<Rightarrow> 's \<times> 'e option" where
  "binary_Write w s v = w s (int32s_bytes v)"

subsection \<open>Index entries\<close>

record indexEntry =
  rpmtype :: int
  count :: int
  data :: "byte list"

definition indexBytes :: "indexEntry \<Rightarrow> int \<Rightarrow> int \<Rightarrow> byte list" where
  "indexBytes e tag contentOffset =
     fst (binary_Write (Buffer_Write :: (byte list, unit) Writer) []
            [int32 tag, int32 (rpmtype e), int32 contentOffset, int32 (count e)])"

definition StringArrayEntry :: "string list \<Rightarrow> indexEntry" where
  "StringArrayEntry value =
     (let b = map bytes_of value;
          bb = bytes_Join b [0] @ [0]
      in \<lparr>rpmtype = typeStringArray, count = int (length value), data = bb\<rparr>)"

definition BinaryEntry :: "byte list \<Rightarrow> indexEntry" where
  "BinaryEntry value = \<lparr>rpmtype = typeBinary, count = int (length value), data = value\<rparr>"

definition Int32Entry :: "int32 list \<Rightarrow> indexEntry" where
  "Int32Entry value =
     (let b = fst (binary_Write (Buffer_Write :: (byte list, unit) Writer) [] value)
      in \<lparr>rpmtype = typeInt32, count = int (length value), data = b\<rparr>)"

subsection \<open>The index\<close>

record index =
  entries :: "(int, indexEntry) alist"
  size :: int
  h :: int

definition NewIndex :: "int \<Rightarrow> index" where
  "NewIndex h' = \<lparr>entries = DAList.empty, size = 0, h = h'\<rparr>"

definition Add :: "int \<Rightarrow> indexEntry \<Rightarrow> index \<Rightarrow> index" where
  "Add tag e i = i\<lparr>entries := DAList.update tag e (entries i)\<rparr>"

text \<open>\<open>len(i.entries)\<close>.\<close>

definition len_entries :: "index \<Rightarrow> int" where
  "len_entries i = int (length (DAList.impl_of (entries i)))"

text \<open>\<open>i.entries[tag]\<close>: the entry stored at the tag, the zero value when there is none.\<close>

definition entries_at :: "index \<Rightarrow> int \<Rightarrow> indexEntry" where
  "entries_at i tag =
     (case DAList.lookup (entries i) tag of
        Some e \<Rightarrow> e
      | None \<Rightarrow> \<lparr>rpmtype = 0, count = 0, data = []\<rparr>)"

definition sortedTags :: "index \<Rightarrow> int list" where
  "sortedTags i = sort (map fst (DAList.impl_of (entries i)))"

definition pad :: "('s, 'e) Writer \<Rightarrow> 's \<Rightarrow> int \<Rightarrow> int \<Rightarrow> 's" where
  "pad w s rpmtype' offset =
     (case boundaries rpmtype' of
        Some b \<Rightarrow>
          if go_rem offset b \<noteq> 0 then fst (w s (replicate (nat (b - go_rem offset b)) 0)) else s
      | None \<Rightarrow> s)"

definition eigenHeader :: "index \<Rightarrow> indexEntry" where
  "eigenHeader i =
     BinaryEntry (fst (binary_Write (Buffer_Write :: (byte list, unit) Writer) []
        [int32 (h i), int32 typeBinary, - int32 (0x10 * (len_entries i + 1)), int32 0x10]))"

text \<open>
  The first loop of \<open>Write\<close>, from position \<open>ii\<close> on: the state is the buffer
  \<open>entryData\<close> and the slice \<open>offsets\<close>. The assignment \<open>offsets[ii] = ...\<close> panics when
  \<open>ii\<close> is not an index of the slice; \<open>None\<close> is that panic.
\<close>

fun place_entries ::
  "index \<Rightarrow> nat \<Rightarrow> int list \<Rightarrow> byte list \<times> int list \<Rightarrow> (byte list \<times> int list) option" where
  "place_entries i ii [] st = Some st"
| "place_entries i ii (tag # tags) (entryData, offsets) =
     (let e = entries_at i tag;
          entryData1 = pad (Buffer_Write :: (byte list, unit) Writer) entryData (rpmtype e)
                         (int (length entryData))
      in if ii < length offsets
         then place_entries i (Suc ii) tags
                (fst ((Buffer_Write :: (byte list, unit) Writer) entryData1 (data e)),
                 offsets[ii := int (length entryData1)])
         else None)"

text \<open>
  The second loop of \<open>Write\<close>: one descriptor per tag, errors of the writer dropped. Reading
  \<open>offsets[ii]\<close> panics when \<open>ii\<close> is not an index of the slice; \<open>None\<close> is that panic.
\<close>

fun write_entries ::
  "index \<Rightarrow> ('s, 'e) Writer \<Rightarrow> int list \<Rightarrow> nat \<Rightarrow> int list \<Rightarrow> 's \<Rightarrow> 's option" where
  "write_entries i w offsets ii [] s = Some s"
| "write_entries i w offsets ii (tag # tags) s =
     (let e = entries_at i tag
      in if ii < length offsets
         then write_entries i w offsets (Suc ii) tags
                (fst (w s (indexBytes e tag (offsets ! ii))))
         else None)"

text \<open>The buffer \<open>entryData\<close> and the slice \<open>offsets\<close> as they are when line 95 is done.\<close>

definition entryData_offsets :: "index \<Rightarrow> (byte list \<times> int list) option" where
  "entryData_offsets i =
     (let tags = sortedTags i;
          offsets = replicate (length tags) 0
      in case place_entries i 0 tags ([], offsets) of
           None \<Rightarrow> None
         | Some (entryData, offsets1) \<Rightarrow>
             Some (fst ((Buffer_Write :: (byte list, unit) Writer) entryData
                          (data (eigenHeader i))),
                   offsets1))"

text \<open>
  \<open>Write\<close> has a pointer receiver: the result holds the index as the call leaves it,
  the writer's state and the returned error. \<open>None\<close> is a panic in one of the loops.
\<close>

definition Write ::
  "index \<Rightarrow> ('s, 'e) Writer \<Rightarrow> 's \<Rightarrow> (index \<times> 's \<times> 'e option) option" where
  "Write i w s =
     (let tags = sortedTags i
      in case entryData_offsets i of
           None \<Rightarrow> None
         | Some (entryData, offsets) \<Rightarrow>
             (let s1 = fst (w s [0x8e, 0xad, 0xe8, 0x01, 0, 0, 0, 0]);
                  (s2, err) = binary_Write w s1
                                [int32 (len_entries i) + 1, int32 (int (length entryData))]
              in case err of
                   Some e \<Rightarrow> Some (i, s2, Some e)
                 | None \<Rightarrow>
                     (let s3 = fst (w s2 (indexBytes (eigenHeader i) (h i)
                                            (int (length entryData) - 0x10)))
                      in case write_entries i w offsets 0 tags s3 of
                           None \<Rightarrow> None
                         | Some s4 \<Rightarrow> Some (i, fst (w s4 entryData), None))))"

text \<open>The bytes that \<open>Write\<close> leaves in an empty \<open>bytes.Buffer\<close>.\<close>

definition serialized :: "index \<Rightarrow> byte list option" where
  "serialized i =
     map_option (\<lambda>r. fst (snd r)) (Write i (Buffer_Write :: (byte list, unit) Writer) [])"

subsection \<open>The lead\<close>

definition Lead :: "string \<Rightarrow> string \<Rightarrow> string \<Rightarrow> byte list" where
  "Lead name version release =
     (let n = bytes_of (name @ ''-'' @ version @ ''-'' @ release);
          n1 = (if length n > 65 then take 65 n else n);
          n2 = n1 @ replicate (66 - length n1) 0;
          b = [0xed, 0xab, 0xee, 0xdb, 0x03, 0x00, 0x00, 0x00, 0x00, 0x01];
          b1 = b @ n2;
          b2 = b1 @ [0x00, 0x01, 0x00, 0x05];
          b3 = b2 @ replicate 16 0
      in b3)"

subsection \<open>Auxiliary notions for the statements\<close>

text \<open>
  The state of the first loop of \<open>Write\<close> after its first \<open>k\<close> rounds, and the buffer
  \<open>entryData\<close> in that state.
\<close>

definition loop_state :: "index \<Rightarrow> nat \<Rightarrow> (byte list \<times> int list) option" where
  "loop_state i k =
     place_entries i 0 (take k (sortedTags i)) ([], replicate (length (sortedTags i)) 0)"

definition entryData_after :: "index \<Rightarrow> nat \<Rightarrow> byte list" where
  "entryData_after i k =
     (case loop_state i k of Some (entryData, offsets) \<Rightarrow> entryData | None \<Rightarrow> [])"

text \<open>The two results of \<open>entryData_offsets\<close>, for the statements below.\<close>

definition entryData_of :: "index \<Rightarrow> byte list" where
  "entryData_of i =
     (case entryData_offsets i of Some (entryData, offsets) \<Rightarrow> entryData | None \<Rightarrow> [])"

definition offsets_of :: "index \<Rightarrow> int list" where
  "offsets_of i =
     (case entryData_offsets i of Some (entryData, offsets) \<Rightarrow> offsets | None \<Rightarrow> [])"

text \<open>Reading back four big-endian bytes, to say what \<open>be32\<close> keeps.\<close>

definition read_be32 :: "byte list \<Rightarrow> int32" where
  "read_be32 p = (case p of [a, b, c, d] \<Rightarrow>
      push_bit 24 (ucast a) OR push_bit 16 (ucast b) OR push_bit 8 (ucast c) OR ucast d | _ \<Rightarrow> 0)"

text \<open>
  A writer that keeps, next to the state of the writer it wraps, the list of the calls made
  so far, each with its argument and its outcome.
\<close>

definition recording :: "('s, 'e) Writer \<Rightarrow> ('s \<times> (byte list \<times> 'e option) list, 'e) Writer" where
  "recording w = (\<lambda>(s, log) p. let (s', err) = w s p in ((s', log @ [(p, err)]), err))"

text \<open>
  A sink of bounded capacity: a write that fits is appended, a write that does not fit is
  refused with an error and leaves the content as it was.
\<close>

definition limited :: "nat \<Rightarrow> (byte list, string) Writer" where
  "limited cap b p = (if length b + length p \<le> cap then (b @ p, None) else (b, Some ''no space left''))"

text \<open>
  Two indexes with the same three entries, added in opposite orders, so that the underlying
  lists are in different orders.
\<close>

definition sample_index :: index where
  "sample_index =
     Add 1002 (BinaryEntry [1]) (Add 1001 (Int32Entry [5])
       (Add 1000 (StringArrayEntry [''a'']) (NewIndex immutable)))"

definition sample_index' :: index where
  "sample_index' =
     Add 1000 (StringArrayEntry [''a'']) (Add 1001 (Int32Entry [5])
       (Add 1002 (BinaryEntry [1]) (NewIndex immutable)))"

section \<open>Encoding of integers and descriptors\<close>

lemma length_be32: "length (be32 x) = 4"
  by (simp add: be32_def)

lemma length_int32s_bytes: "length (int32s_bytes v) = 4 * length v"
  by (induction v) (simp_all add: int32s_bytes_def length_be32)

lemma read_be32_be32: "read_be32 (be32 x) = x"
  unfolding read_be32_def be32_def
  apply simp
  apply (rule bit_word_eqI)
  apply (auto simp add: bit_simps)
  subgoal for n by (cases "16 \<le> n") simp_all
  subgoal for n by (cases "16 \<le> n"; cases "24 \<le> n") simp_all
  done

lemma sint_int32: "- (2 ^ 31) \<le> x \<Longrightarrow> x < 2 ^ 31 \<Longrightarrow> sint (int32 x) = x"
  by (simp add: int32_def sint_sbintrunc' signed_take_bit_int_eq_self)

lemma indexBytes_eq:
  "indexBytes e tag off =
     be32 (int32 tag) @ be32 (int32 (rpmtype e)) @ be32 (int32 off) @ be32 (int32 (count e))"
  by (simp add: indexBytes_def binary_Write_def Buffer_Write_def int32s_bytes_def)

lemma length_indexBytes: "length (indexBytes e tag off) = 16"
  by (simp add: indexBytes_eq length_be32)

section \<open>Entry constructors\<close>

text \<open>
  C10: on the empty sequence of strings the string-array constructor gives an entry of
  type StringArray with count 0 whose data is exactly one NUL byte, not the empty sequence.
\<close>

theorem StringArrayEntry_empty:
  "count (StringArrayEntry []) = 0 \<and> data (StringArrayEntry []) = [0]
   \<and> rpmtype (StringArrayEntry []) = typeStringArray"
  by (simp add: StringArrayEntry_def)

lemma bytes_Join_NUL:
  "bytes_Join (x # xs) [0] @ [0] = concat (map (\<lambda>v. v @ [0]) (x # xs))"
  by (induction xs arbitrary: x) simp_all

text \<open>
  C1, as the code has it: for every sequence of strings the constructor gives an entry of
  type StringArray whose count is the number of strings and whose data is every string
  followed by its NUL terminator, in input order, and nothing after the terminator of the
  last string; for the empty sequence the data is the single NUL byte. \<open>bytes.Join\<close> puts
  one NUL between neighbours and the code appends one NUL, so no second NUL ends the data.
\<close>

theorem StringArrayEntry_data:
  "rpmtype (StringArrayEntry value) = typeStringArray
   \<and> count (StringArrayEntry value) = int (length value)
   \<and> data (StringArrayEntry value) =
       (if value = [] then [0] else concat (map (\<lambda>v. bytes_of v @ [0]) value))"
proof (cases "value")
  case Nil
  then show ?thesis by (simp add: StringArrayEntry_def)
next
  case (Cons v vs)
  have "bytes_Join (bytes_of v # map bytes_of vs) [0] @ [0] =
          concat (map (\<lambda>v. v @ [0]) (bytes_of v # map bytes_of vs))"
    by (rule bytes_Join_NUL)
  then show ?thesis
    by (simp add: StringArrayEntry_def Cons comp_def)
qed

text \<open>
  The instance of the statement at \<open>["a", "bb"]\<close>: the data is \<open>a\0bb\0\<close>, five bytes,
  and the count is 2.
\<close>

theorem StringArrayEntry_data_witness:
  "data (StringArrayEntry [''a'', ''bb'']) = [0x61, 0, 0x62, 0x62, 0]
   \<and> count (StringArrayEntry [''a'', ''bb'']) = 2"
  using StringArrayEntry_data [of "[''a'', ''bb'']"] by (simp add: bytes_of_def)

text \<open>
  C1 as the specification words it asks for a further NUL after the last terminator and
  for the six bytes \<open>a\0bb\0\0\<close> at \<open>["a", "bb"]\<close>. The code gives five bytes there.
\<close>

theorem StringArrayEntry_no_second_NUL:
  "data (StringArrayEntry [''a'', ''bb'']) = [0x61, 0, 0x62, 0x62, 0]
   \<and> data (StringArrayEntry [''a'', ''bb'']) \<noteq> [0x61, 0, 0x62, 0x62, 0, 0]"
  by (simp add: StringArrayEntry_def bytes_of_def)

section \<open>The lead\<close>

text \<open>
  C8: for all strings name, version and release, \<open>Lead\<close> is total and returns exactly 96
  bytes; bytes 0 to 3 are \<open>ed ab ee db\<close>; bytes 10 to 75 are the string
  name-version-release cut to at most 65 bytes and filled with zero bytes to 66 bytes; the
  last 16 bytes are zero.
\<close>

theorem Lead_layout:
  "length (Lead name version release) = 96
   \<and> take 4 (Lead name version release) = [0xed, 0xab, 0xee, 0xdb]
   \<and> take 66 (drop 10 (Lead name version release)) =
       take 65 (bytes_of (name @ ''-'' @ version @ ''-'' @ release))
         @ replicate (66 - min 65 (length (bytes_of (name @ ''-'' @ version @ ''-'' @ release)))) 0
   \<and> drop 80 (Lead name version release) = replicate 16 0"
  by (simp add: Lead_def Let_def min_def)

text \<open>
  The instance at \<open>Lead("pkg", "1.0", "1")\<close>.
\<close>

theorem Lead_layout_witness:
  "length (Lead ''pkg'' ''1.0'' ''1'') = 96
   \<and> take 4 (Lead ''pkg'' ''1.0'' ''1'') = [0xed, 0xab, 0xee, 0xdb]
   \<and> take 66 (drop 10 (Lead ''pkg'' ''1.0'' ''1'')) = bytes_of ''pkg-1.0-1'' @ replicate 57 0"
  using Lead_layout [of "''pkg''" "''1.0''" "''1''"]
  by (simp add: bytes_of_def)

section \<open>The region sentinel and the two loops\<close>

lemma data_eigenHeader:
  "data (eigenHeader i) =
     be32 (int32 (h i)) @ be32 (int32 typeBinary) @ be32 (int32 (- (16 * (len_entries i + 1))))
       @ be32 (int32 16)"
  by (simp add: eigenHeader_def BinaryEntry_def binary_Write_def Buffer_Write_def
      int32s_bytes_def int32_def)

lemma length_data_eigenHeader: "length (data (eigenHeader i)) = 16"
  by (simp add: data_eigenHeader length_be32)

lemma rpmtype_eigenHeader: "rpmtype (eigenHeader i) = typeBinary"
  by (simp add: eigenHeader_def BinaryEntry_def)

lemma count_eigenHeader: "count (eigenHeader i) = 16"
  by (simp add: eigenHeader_def BinaryEntry_def binary_Write_def Buffer_Write_def
      length_int32s_bytes)

lemma go_rem_nonneg: "0 \<le> a \<Longrightarrow> 0 < b \<Longrightarrow> go_rem a b = a mod b"
  by (cases "a = 0") (simp_all add: go_rem_def)

lemma pad_Buffer_Int32:
  "pad Buffer_Write buf typeInt32 (int (length buf)) =
     (if int (length buf) mod 4 \<noteq> 0
      then buf @ replicate (nat (4 - int (length buf) mod 4)) 0 else buf)"
  by (simp add: pad_def boundaries_def go_rem_nonneg Buffer_Write_def)

lemma pad_Buffer_other:
  "t \<noteq> typeInt32 \<Longrightarrow> pad Buffer_Write buf t offset = buf"
  by (simp add: pad_def boundaries_def)

lemma pad_Buffer_extends: "\<exists>z. pad Buffer_Write buf t off = buf @ z"
  by (simp add: pad_def Buffer_Write_def split: option.split)

text \<open>The first loop: it does not panic, keeps what is in the buffer and the earlier offsets.\<close>

lemma place_entries_Some:
  "ii + length tags \<le> length offs \<Longrightarrow>
   \<exists>b offs'. place_entries i ii tags (buf, offs) = Some (b, offs')
     \<and> length offs' = length offs \<and> (\<exists>z. b = buf @ z) \<and> (\<forall>k<ii. offs' ! k = offs ! k)"
proof (induction tags arbitrary: ii buf offs)
  case Nil
  then show ?case by simp
next
  case (Cons t tags)
  let ?e = "entries_at i t"
  obtain z where z: "pad (Buffer_Write :: (byte list, unit) Writer) buf (rpmtype ?e)
                       (int (length buf)) = buf @ z"
    using pad_Buffer_extends by blast
  from Cons.prems have lt: "ii < length offs" by simp
  from Cons.prems
  have "Suc ii + length tags \<le> length (offs[ii := int (length (buf @ z))])" by simp
  from Cons.IH [OF this, of "(buf @ z) @ data ?e"]
  obtain b offs' where r:
    "place_entries i (Suc ii) tags ((buf @ z) @ data ?e, offs[ii := int (length (buf @ z))])
       = Some (b, offs')"
    "length offs' = length offs" "\<exists>z'. b = ((buf @ z) @ data ?e) @ z'"
    "\<forall>k<Suc ii. offs' ! k = offs[ii := int (length (buf @ z))] ! k"
    by auto
  have "place_entries i ii (t # tags) (buf, offs) = Some (b, offs')"
    using lt r(1) by (simp add: Let_def z Buffer_Write_def)
  moreover have "\<exists>z'. b = buf @ z'" using r(3) by auto
  moreover have "\<forall>k<ii. offs' ! k = offs ! k" using r(4) by simp
  ultimately show ?case using r(2) by blast
qed

lemma place_entries_append:
  "place_entries i ii (ts1 @ ts2) st =
     (case place_entries i ii ts1 st of
        None \<Rightarrow> None
      | Some st' \<Rightarrow> place_entries i (ii + length ts1) ts2 st')"
proof (induction ts1 arbitrary: ii st)
  case Nil
  then show ?case by simp
next
  case (Cons t ts1)
  obtain buf offs where st: "st = (buf, offs)" by (cases st)
  show ?case unfolding st by (simp add: Let_def Cons.IH cong: option.case_cong)
qed

lemma place_entries_cong:
  "entries_at i = entries_at j \<Longrightarrow> place_entries i ii tags st = place_entries j ii tags st"
proof (induction tags arbitrary: ii st)
  case Nil
  then show ?case by simp
next
  case (Cons t tags)
  obtain buf offs where st: "st = (buf, offs)" by (cases st)
  show ?case unfolding st by (simp add: Let_def Cons)
qed

text \<open>The second loop does not panic either.\<close>

lemma write_entries_Some:
  "ii + length tags \<le> length offs \<Longrightarrow> \<exists>s'. write_entries i w offs ii tags s = Some s'"
proof (induction tags arbitrary: ii s)
  case Nil
  then show ?case by simp
next
  case (Cons t tags)
  from Cons.prems have "Suc ii + length tags \<le> length offs" by simp
  from Cons.IH [OF this] Cons.prems show ?case by (simp add: Let_def)
qed

lemma write_entries_Buffer:
  "ii + length tags \<le> length offs \<Longrightarrow>
   write_entries i Buffer_Write offs ii tags s =
     Some (s @ concat (map (\<lambda>(tag, off). indexBytes (entries_at i tag) tag off)
                         (zip tags (drop ii offs))))"
proof (induction tags arbitrary: ii s)
  case Nil
  then show ?case by simp
next
  case (Cons t tags)
  from Cons.prems have lt: "ii < length offs" by simp
  then have d: "drop ii offs = offs ! ii # drop (Suc ii) offs"
    by (simp add: Cons_nth_drop_Suc)
  from Cons.prems have "Suc ii + length tags \<le> length offs" by simp
  from Cons.IH [OF this] lt show ?case
    by (simp add: d Buffer_Write_def)
qed

lemma write_entries_cong:
  "entries_at i = entries_at j \<Longrightarrow>
   write_entries i w offs ii tags s = write_entries j w offs ii tags s"
  by (induction tags arbitrary: ii s) simp_all

text \<open>The state of the first loop after \<open>k\<close> rounds.\<close>

lemma loop_state_Some:
  assumes "k \<le> length (sortedTags i)"
  shows "\<exists>offs. loop_state i k = Some (entryData_after i k, offs)
           \<and> length offs = length (sortedTags i)"
proof -
  have "0 + length (take k (sortedTags i)) \<le> length (replicate (length (sortedTags i)) (0::int))"
    using assms by simp
  from place_entries_Some [OF this, of i "[]"]
  obtain b offs where "loop_state i k = Some (b, offs)" "length offs = length (sortedTags i)"
    by (auto simp add: loop_state_def)
  then show ?thesis by (simp add: entryData_after_def)
qed

lemma entryData_offsets_eq:
  "entryData_offsets i = Some (entryData_of i, offsets_of i)
   \<and> entryData_of i = entryData_after i (length (sortedTags i)) @ data (eigenHeader i)
   \<and> loop_state i (length (sortedTags i)) = Some (entryData_after i (length (sortedTags i)), offsets_of i)
   \<and> length (offsets_of i) = length (sortedTags i)"
proof -
  obtain offs where l: "loop_state i (length (sortedTags i))
      = Some (entryData_after i (length (sortedTags i)), offs)" "length offs = length (sortedTags i)"
    using loop_state_Some [of "length (sortedTags i)" i] by auto
  then have "entryData_offsets i
      = Some (entryData_after i (length (sortedTags i)) @ data (eigenHeader i), offs)"
    by (simp add: entryData_offsets_def loop_state_def Let_def Buffer_Write_def)
  then show ?thesis using l by (simp add: entryData_of_def offsets_of_def)
qed

lemmas entryData_offsets_Some = entryData_offsets_eq [THEN conjunct1]
lemmas entryData_of_after = entryData_offsets_eq [THEN conjunct2, THEN conjunct1]
lemmas loop_state_final = entryData_offsets_eq [THEN conjunct2, THEN conjunct2, THEN conjunct1]
lemmas length_offsets_of = entryData_offsets_eq [THEN conjunct2, THEN conjunct2, THEN conjunct2]

lemma loop_state_step:
  assumes "k < length (sortedTags i)" and "loop_state i k = Some (buf, offs)"
  shows "loop_state i (Suc k) =
           Some (pad (Buffer_Write :: (byte list, unit) Writer) buf
                   (rpmtype (entries_at i (sortedTags i ! k))) (int (length buf))
                   @ data (entries_at i (sortedTags i ! k)),
                 offs[k := int (length (pad (Buffer_Write :: (byte list, unit) Writer) buf
                   (rpmtype (entries_at i (sortedTags i ! k))) (int (length buf))))])"
proof -
  obtain offs' where "loop_state i k = Some (entryData_after i k, offs')"
      "length offs' = length (sortedTags i)"
    using loop_state_Some [of k i] assms(1) by auto
  with assms(2) have lo: "length offs = length (sortedTags i)" by simp
  have "take (Suc k) (sortedTags i) = take k (sortedTags i) @ [sortedTags i ! k]"
    using assms(1) by (rule take_Suc_conv_app_nth)
  then have "loop_state i (Suc k) =
      place_entries i (0 + length (take k (sortedTags i))) [sortedTags i ! k] (buf, offs)"
    using assms(2) by (simp add: loop_state_def place_entries_append)
  then show ?thesis
    using assms(1) lo by (simp add: Let_def Buffer_Write_def)
qed

lemma entryData_after_Suc:
  assumes "k < length (sortedTags i)"
  shows "entryData_after i (Suc k) =
           pad (Buffer_Write :: (byte list, unit) Writer) (entryData_after i k)
             (rpmtype (entries_at i (sortedTags i ! k))) (int (length (entryData_after i k)))
           @ data (entries_at i (sortedTags i ! k))"
proof -
  obtain offs where "loop_state i k = Some (entryData_after i k, offs)"
    using loop_state_Some [of k i] assms by auto
  from loop_state_step [OF assms this] show ?thesis
    by (simp add: entryData_after_def [of i "Suc k"])
qed

lemma loop_state_rest:
  assumes "k \<le> length (sortedTags i)" and "loop_state i k = Some (buf, offs)"
  shows "\<exists>z. entryData_of i = buf @ z" and "\<forall>j<k. offsets_of i ! j = offs ! j"
proof -
  obtain offs' where "loop_state i k = Some (entryData_after i k, offs')"
      "length offs' = length (sortedTags i)"
    using loop_state_Some [OF assms(1)] by auto
  with assms(2) have lo: "length offs = length (sortedTags i)" by simp
  let ?tags = "sortedTags i"
  have "loop_state i (length ?tags) =
          place_entries i 0 (take k ?tags @ drop k ?tags) ([], replicate (length ?tags) 0)"
    by (simp add: loop_state_def)
  also have "\<dots> = place_entries i (0 + length (take k ?tags)) (drop k ?tags) (buf, offs)"
    using assms(2) by (simp only: place_entries_append) (simp add: loop_state_def)
  finally have f: "place_entries i k (drop k ?tags) (buf, offs)
      = Some (entryData_after i (length ?tags), offsets_of i)"
    using assms(1) by (simp add: loop_state_final min_def)
  have "k + length (drop k ?tags) \<le> length offs" using assms(1) lo by simp
  from place_entries_Some [OF this, of i buf] f
  have "(\<exists>z. entryData_after i (length ?tags) = buf @ z) \<and> (\<forall>j<k. offsets_of i ! j = offs ! j)"
    by auto
  then show "\<exists>z. entryData_of i = buf @ z" and "\<forall>j<k. offsets_of i ! j = offs ! j"
    by (auto simp add: entryData_of_after)
qed

lemma offsets_nth:
  assumes "k < length (sortedTags i)"
  shows "offsets_of i ! k =
           int (length (pad (Buffer_Write :: (byte list, unit) Writer) (entryData_after i k)
             (rpmtype (entries_at i (sortedTags i ! k))) (int (length (entryData_after i k)))))"
proof -
  obtain offs where l: "loop_state i k = Some (entryData_after i k, offs)"
      "length offs = length (sortedTags i)"
    using loop_state_Some [of k i] assms by auto
  from assms have "Suc k \<le> length (sortedTags i)" by simp
  from loop_state_rest(2) [OF this loop_state_step [OF assms l(1)]]
  show ?thesis using assms l(2) by simp
qed

lemma entryData_after_prefix:
  assumes "k \<le> length (sortedTags i)"
  shows "\<exists>z. entryData_of i = entryData_after i k @ z"
proof -
  obtain offs where "loop_state i k = Some (entryData_after i k, offs)"
    using loop_state_Some [OF assms] by auto
  from loop_state_rest(1) [OF assms this] show ?thesis .
qed

section \<open>The sorted tags and the calls of the writer\<close>

lemma sortedTags_strict: "sorted_wrt (<) (sortedTags i)"
  by (simp add: sortedTags_def strict_sorted_iff)

lemma set_sortedTags: "set (sortedTags i) = dom (DAList.lookup (entries i))"
  by (simp add: sortedTags_def DAList.lookup.rep_eq dom_map_of_conv_image_fst)

lemma lookup_sortedTags:
  "tag \<in> set (sortedTags i) \<Longrightarrow> DAList.lookup (entries i) tag = Some (entries_at i tag)"
  by (auto simp add: set_sortedTags entries_at_def)

lemma sortedTags_lookup:
  "sortedTags i = sorted_list_of_set (dom (DAList.lookup (entries i)))"
proof -
  have "sorted_list_of_set (set (map fst (DAList.impl_of (entries i))))
          = sort (remdups (map fst (DAList.impl_of (entries i))))"
    by (rule sorted_list_of_set_sort_remdups)
  moreover have "remdups (map fst (DAList.impl_of (entries i))) = map fst (DAList.impl_of (entries i))"
    by (rule distinct_remdups_id) simp
  ultimately show ?thesis
    by (simp add: sortedTags_def DAList.lookup.rep_eq dom_map_of_conv_image_fst)
qed

lemma len_entries_lookup:
  "len_entries i = int (card (dom (DAList.lookup (entries i))))"
proof -
  have "card (set (map fst (DAList.impl_of (entries i)))) = length (map fst (DAList.impl_of (entries i)))"
    by (rule distinct_card) simp
  then show ?thesis
    by (simp add: len_entries_def DAList.lookup.rep_eq dom_map_of_conv_image_fst)
qed

lemma length_sortedTags: "int (length (sortedTags i)) = len_entries i"
  by (simp add: sortedTags_def len_entries_def)

text \<open>\<open>Write\<close> with the two loops resolved: it never panics.\<close>

lemma Write_eq:
  "\<exists>s4. write_entries i w (offsets_of i) 0 (sortedTags i)
           (fst (w (fst (binary_Write w (fst (w s [0x8e, 0xad, 0xe8, 0x01, 0, 0, 0, 0]))
                           [int32 (len_entries i) + 1, int32 (int (length (entryData_of i)))]))
                   (indexBytes (eigenHeader i) (h i) (int (length (entryData_of i)) - 0x10))))
           = Some s4
       \<and> Write i w s =
           (case snd (binary_Write w (fst (w s [0x8e, 0xad, 0xe8, 0x01, 0, 0, 0, 0]))
                        [int32 (len_entries i) + 1, int32 (int (length (entryData_of i)))]) of
              Some e \<Rightarrow>
                Some (i, fst (binary_Write w (fst (w s [0x8e, 0xad, 0xe8, 0x01, 0, 0, 0, 0]))
                        [int32 (len_entries i) + 1, int32 (int (length (entryData_of i)))]), Some e)
            | None \<Rightarrow> Some (i, fst (w s4 (entryData_of i)), None))"
proof -
  have "0 + length (sortedTags i) \<le> length (offsets_of i)"
    by (simp add: length_offsets_of)
  from write_entries_Some [OF this, of i w]
  obtain s4 where s4: "write_entries i w (offsets_of i) 0 (sortedTags i)
           (fst (w (fst (binary_Write w (fst (w s [0x8e, 0xad, 0xe8, 0x01, 0, 0, 0, 0]))
                           [int32 (len_entries i) + 1, int32 (int (length (entryData_of i)))]))
                   (indexBytes (eigenHeader i) (h i) (int (length (entryData_of i)) - 0x10))))
           = Some s4"
    by blast
  then show ?thesis
    by (auto simp add: Write_def entryData_offsets_Some Let_def split_beta split: option.split)
qed

lemma Write_total: "\<exists>r. Write i w s = Some r"
  using Write_eq [of i w s] by (auto split: option.split)

lemma Write_index: "map_option fst (Write i w s) = Some i"
  using Write_eq [of i w s] by (auto split: option.split)

lemma Write_error:
  "map_option (\<lambda>r. snd (snd r)) (Write i w s) =
     Some (snd (binary_Write w (fst (w s [0x8e, 0xad, 0xe8, 0x01, 0, 0, 0, 0]))
                  [int32 (len_entries i) + 1, int32 (int (length (entryData_of i)))]))"
  using Write_eq [of i w s] by (auto split: option.split)

lemma Write_error_only_if:
  assumes "map_option (\<lambda>r. snd (snd r)) (Write i (recording w) (s, [])) = Some (Some e)"
  shows "map_option (\<lambda>r. map snd (snd (fst (snd r)))) (Write i (recording w) (s, []))
           = Some [snd (w s [0x8e, 0xad, 0xe8, 0x01, 0, 0, 0, 0]), Some e]"
  using assms Write_eq [of i "recording w" "(s, [])"]
  by (auto simp add: recording_def binary_Write_def split_beta Let_def split: option.splits)

lemma Write_cong:
  assumes "sortedTags i = sortedTags j" and "entries_at i = entries_at j"
    and "len_entries i = len_entries j" and "h i = h j"
  shows "map_option snd (Write i w s) = map_option snd (Write j w s)"
proof -
  have eh: "eigenHeader i = eigenHeader j"
    using assms by (simp add: eigenHeader_def)
  have eo: "entryData_offsets i = entryData_offsets j"
    using assms by (simp add: entryData_offsets_def eh place_entries_cong [OF assms(2)]
        cong: option.case_cong)
  show ?thesis
    using assms
    by (simp add: Write_def eo eh write_entries_cong [OF assms(2)] Let_def split_beta
        split: option.split)
qed

lemma serialized_eq:
  "serialized i = Some (
     [0x8e, 0xad, 0xe8, 0x01, 0, 0, 0, 0]
     @ be32 (int32 (len_entries i + 1))
     @ be32 (int32 (int (length (entryData_of i))))
     @ indexBytes (eigenHeader i) (h i) (int (length (entryData_of i)) - 0x10)
     @ concat (map (\<lambda>(tag, off). indexBytes (entries_at i tag) tag off)
                 (zip (sortedTags i) (offsets_of i)))
     @ entryData_of i)"
proof -
  have len: "0 + length (sortedTags i) \<le> length (offsets_of i)"
    by (simp add: length_offsets_of)
  show ?thesis
    by (simp add: serialized_def Write_def entryData_offsets_Some Let_def binary_Write_def
        int32s_bytes_def write_entries_Buffer [OF len] int32_def Buffer_Write_def [of _ "_ :: byte list"])
qed

lemma length_descriptors:
  "length offs = length tags \<Longrightarrow>
   length (concat (map (\<lambda>(tag, off). indexBytes (entries_at i tag) tag off) (zip tags offs)))
     = 16 * length tags"
  by (induction tags offs rule: list_induct2') (simp_all add: length_indexBytes)

lemma recording_apply:
  "recording w (s, log) p = ((fst (w s p), log @ [(p, snd (w s p))]), snd (w s p))"
  by (simp add: recording_def split_beta)

lemma write_entries_recording:
  "ii + length tags \<le> length offs \<Longrightarrow>
   \<exists>s' log'. write_entries i (recording w) offs ii tags (s, log) = Some (s', log')
     \<and> map fst log' =
         map fst log @ map (\<lambda>(tag, off). indexBytes (entries_at i tag) tag off)
                         (zip tags (drop ii offs))"
proof (induction tags arbitrary: ii s log)
  case Nil
  then show ?case by simp
next
  case (Cons t tags)
  from Cons.prems have lt: "ii < length offs" by simp
  then have d: "drop ii offs = offs ! ii # drop (Suc ii) offs"
    by (simp add: Cons_nth_drop_Suc)
  let ?p = "indexBytes (entries_at i t) t (offs ! ii)"
  obtain s1 err where w: "w s ?p = (s1, err)" by (cases "w s ?p")
  from Cons.prems have "Suc ii + length tags \<le> length offs" by simp
  from Cons.IH [OF this, of s1 "log @ [(?p, err)]"] lt show ?case
    by (simp add: d recording_apply w)
qed

lemma Write_chunks:
  assumes "snd (binary_Write w (fst (w s [0x8e, 0xad, 0xe8, 0x01, 0, 0, 0, 0]))
                  [int32 (len_entries i) + 1, int32 (int (length (entryData_of i)))]) = None"
  shows "map_option (\<lambda>r. map fst (snd (fst (snd r)))) (Write i (recording w) (s, [])) =
           Some ([[0x8e, 0xad, 0xe8, 0x01, 0, 0, 0, 0],
                  be32 (int32 (len_entries i + 1)) @ be32 (int32 (int (length (entryData_of i)))),
                  indexBytes (eigenHeader i) (h i) (int (length (entryData_of i)) - 0x10)]
                 @ map (\<lambda>(tag, off). indexBytes (entries_at i tag) tag off)
                     (zip (sortedTags i) (offsets_of i))
                 @ [entryData_of i])"
proof -
  let ?pre = "[0x8e, 0xad, 0xe8, 0x01, 0, 0, 0, 0] :: byte list"
  let ?cs = "int32s_bytes [int32 (len_entries i) + 1, int32 (int (length (entryData_of i)))]"
  let ?eh = "indexBytes (eigenHeader i) (h i) (int (length (entryData_of i)) - 0x10)"
  obtain s1 e1 where w1: "w s ?pre = (s1, e1)" by (cases "w s ?pre")
  obtain s2 e2 where w2: "w s1 ?cs = (s2, e2)" by (cases "w s1 ?cs")
  obtain s3 e3 where w3: "w s2 ?eh = (s3, e3)" by (cases "w s2 ?eh")
  from assms have e2: "e2 = None" by (simp add: binary_Write_def w1 w2)
  have len: "0 + length (sortedTags i) \<le> length (offsets_of i)"
    by (simp add: length_offsets_of)
  from write_entries_recording [OF len, of i w s3 "[(?pre, e1), (?cs, None), (?eh, e3)]"]
  obtain s4 log4 where l4:
    "write_entries i (recording w) (offsets_of i) 0 (sortedTags i)
       (s3, [(?pre, e1), (?cs, None), (?eh, e3)]) = Some (s4, log4)"
    "map fst log4 = [?pre, ?cs, ?eh] @ map (\<lambda>(tag, off). indexBytes (entries_at i tag) tag off)
                         (zip (sortedTags i) (offsets_of i))"
    by auto
  obtain s5 e5 where w5: "w s4 (entryData_of i) = (s5, e5)" by (cases "w s4 (entryData_of i)")
  have "Write i (recording w) (s, []) = Some (i, (s5, log4 @ [(entryData_of i, e5)]), None)"
    by (simp add: Write_def entryData_offsets_Some Let_def binary_Write_def recording_apply
        w1 w2 w3 e2 l4(1) w5)
  then show ?thesis
    by (simp add: l4(2) int32s_bytes_def int32_def)
qed

section \<open>The sample index\<close>

lemma sample_sortedTags: "sortedTags sample_index = [1000, 1001, 1002]"
  by code_simp

lemma sample_entries_at:
  "entries_at sample_index 1000 = StringArrayEntry [''a'']"
  "entries_at sample_index 1001 = Int32Entry [5]"
  "entries_at sample_index 1002 = BinaryEntry [1]"
  by (simp_all add: entries_at_def sample_index_def Add_def NewIndex_def)

section \<open>Alignment\<close>

text \<open>
  C5: in round \<open>k\<close> of the loop that builds the data blob, let \<open>e\<close> be the entry of the
  \<open>k\<close>-th sorted tag and \<open>off\<close> the length of the blob before the round. If \<open>e\<close> has type
  Int32 and \<open>off\<close> is not a multiple of 4, exactly \<open>4 - off mod 4\<close> zero bytes and then the
  data of \<open>e\<close> are appended, and the offset recorded for \<open>e\<close> is the value after padding,
  \<open>off + (4 - off mod 4)\<close>. If \<open>e\<close> has type Binary or StringArray, its data is appended with
  no padding and the recorded offset is \<open>off\<close>. What a round has appended stays where it is
  in the finished blob, and the loop ends without a panic.
\<close>

theorem alignment_padding:
  assumes "k < length (sortedTags i)"
  shows "let e = entries_at i (sortedTags i ! k);
             off = int (length (entryData_after i k))
         in (rpmtype e = typeInt32 \<and> off mod 4 \<noteq> 0 \<longrightarrow>
               entryData_after i (Suc k) =
                 entryData_after i k @ replicate (nat (4 - off mod 4)) 0 @ data e
               \<and> offsets_of i ! k = off + (4 - off mod 4))
          \<and> (rpmtype e = typeBinary \<or> rpmtype e = typeStringArray \<longrightarrow>
               entryData_after i (Suc k) = entryData_after i k @ data e
               \<and> offsets_of i ! k = off)
          \<and> (\<exists>z. entryData_of i = entryData_after i (Suc k) @ z)
          \<and> entryData_offsets i = Some (entryData_of i, offsets_of i)"
proof -
  define e where "e = entries_at i (sortedTags i ! k)"
  define off where "off = int (length (entryData_after i k))"
  have ne: "typeBinary \<noteq> typeInt32" "typeStringArray \<noteq> typeInt32"
    by (simp_all add: typeBinary_def typeStringArray_def typeInt32_def)
  have m: "0 \<le> off mod 4" "off mod 4 < 4" by simp_all
  have 1: "rpmtype e = typeInt32 \<and> off mod 4 \<noteq> 0 \<longrightarrow>
            entryData_after i (Suc k) =
              entryData_after i k @ replicate (nat (4 - off mod 4)) 0 @ data e
            \<and> offsets_of i ! k = off + (4 - off mod 4)"
    using m by (simp add: entryData_after_Suc [OF assms] offsets_nth [OF assms]
        e_def [symmetric] off_def [symmetric]
        pad_Buffer_Int32 [of "entryData_after i k", folded off_def])
  have 2: "rpmtype e = typeBinary \<or> rpmtype e = typeStringArray \<longrightarrow>
            entryData_after i (Suc k) = entryData_after i k @ data e
            \<and> offsets_of i ! k = off"
    using ne by (auto simp add: entryData_after_Suc [OF assms] offsets_nth [OF assms]
        e_def [symmetric] off_def pad_Buffer_other)
  have 3: "\<exists>z. entryData_of i = entryData_after i (Suc k) @ z"
    using assms by (intro entryData_after_prefix) simp
  from 1 2 3 entryData_offsets_Some [of i] show ?thesis
    unfolding Let_def e_def [symmetric] off_def [symmetric] by blast
qed

text \<open>
  The statement at the sample index: the Int32 entry of tag 1001 meets a blob of 2 bytes,
  gets 2 bytes of padding and offset 4; the Binary entry of tag 1002 meets a blob of 8
  bytes, gets no padding and offset 8.
\<close>

theorem alignment_padding_witness:
  "(1::nat) < length (sortedTags sample_index)
   \<and> rpmtype (entries_at sample_index (sortedTags sample_index ! 1)) = typeInt32
   \<and> int (length (entryData_after sample_index 1)) mod 4 = 2
   \<and> entryData_after sample_index 2 = [0x61, 0] @ [0, 0] @ [0, 0, 0, 5]
   \<and> offsets_of sample_index ! 1 = 4
   \<and> (2::nat) < length (sortedTags sample_index)
   \<and> rpmtype (entries_at sample_index (sortedTags sample_index ! 2)) = typeBinary
   \<and> entryData_after sample_index 3 = entryData_after sample_index 2 @ [1]
   \<and> offsets_of sample_index ! 2 = 8"
proof -
  have k1: "(1::nat) < length (sortedTags sample_index)" by (simp add: sample_sortedTags)
  have k2: "(2::nat) < length (sortedTags sample_index)" by (simp add: sample_sortedTags)
  have t1: "rpmtype (entries_at sample_index (sortedTags sample_index ! 1)) = typeInt32"
    by (simp add: sample_sortedTags sample_entries_at Int32Entry_def)
  have t2: "rpmtype (entries_at sample_index (sortedTags sample_index ! 2)) = typeBinary"
    by (simp add: sample_sortedTags sample_entries_at BinaryEntry_def)
  have o1: "int (length (entryData_after sample_index 1)) mod 4 = 2"
    by code_simp
  have d1: "data (entries_at sample_index (sortedTags sample_index ! 1)) = [0, 0, 0, 5]"
    by code_simp
  have d2: "data (entries_at sample_index (sortedTags sample_index ! 2)) = [1]"
    by code_simp
  from alignment_padding [OF k1] t1 o1
  have a: "entryData_after sample_index (Suc 1) =
            entryData_after sample_index 1 @ replicate (nat (4 - 2)) 0
              @ data (entries_at sample_index (sortedTags sample_index ! 1))
          \<and> offsets_of sample_index ! 1 =
              int (length (entryData_after sample_index 1)) + (4 - 2)"
    by (simp add: Let_def)
  from alignment_padding [OF k2] t2
  have b: "entryData_after sample_index (Suc 2) =
            entryData_after sample_index 2
              @ data (entries_at sample_index (sortedTags sample_index ! 2))
          \<and> offsets_of sample_index ! 2 =
              int (length (entryData_after sample_index 2))"
    by (simp add: Let_def)
  have r: "replicate (nat (4 - 2)) (0::byte) = [0, 0]" by (simp add: numeral_2_eq_2)
  have e1: "entryData_after sample_index 1 = [0x61, 0]" by code_simp
  have s2: "Suc 1 = 2" "Suc 2 = 3" by simp_all
  from a have a': "entryData_after sample_index 2 = [0x61, 0] @ [0, 0] @ [0, 0, 0, 5]
      \<and> offsets_of sample_index ! 1 = 4"
    unfolding s2 d1 r e1 by simp
  from b have b': "entryData_after sample_index 3 = entryData_after sample_index 2 @ [1]
      \<and> offsets_of sample_index ! 2 = 8"
    unfolding s2 d2 using a' by simp
  from a' b' k1 k2 t1 t2 o1 show ?thesis by blast
qed

section \<open>The serialized header\<close>

text \<open>
  C4: for every index, with \<open>n\<close> entries, \<open>Write\<close> on a buffer returns, and the output
  starts with the 8 bytes \<open>8e ad e8 01 00 00 00 00\<close>; the next 4 bytes are the big-endian
  32-bit integer \<open>n + 1\<close>; the next 4 bytes are the big-endian 32-bit integer that is the
  length of the data blob. The data blob is what follows the \<open>n + 1\<close> descriptors of 16
  bytes, and its length is that of the padded entry data plus the 16 bytes of the sentinel
  payload. Both numbers go through \<open>int32\<close>, which is exact below \<open>2 ^ 31\<close>
  (\<open>sint_int32\<close>, \<open>read_be32_be32\<close>).
\<close>

theorem count_and_size_fields:
  "\<exists>descriptors.
     serialized i = Some (
       [0x8e, 0xad, 0xe8, 0x01, 0, 0, 0, 0]
       @ be32 (int32 (len_entries i + 1))
       @ be32 (int32 (int (length (entryData_of i))))
       @ descriptors
       @ entryData_of i)
     \<and> int (length descriptors) = 16 * (len_entries i + 1)
     \<and> entryData_offsets i = Some (entryData_of i, offsets_of i)
     \<and> length (entryData_of i) = length (entryData_after i (length (sortedTags i))) + 16"
proof -
  define descriptors where "descriptors =
     indexBytes (eigenHeader i) (h i) (int (length (entryData_of i)) - 0x10)
     @ concat (map (\<lambda>(tag, off). indexBytes (entries_at i tag) tag off)
                 (zip (sortedTags i) (offsets_of i)))"
  have 1: "serialized i = Some (
       [0x8e, 0xad, 0xe8, 0x01, 0, 0, 0, 0]
       @ be32 (int32 (len_entries i + 1))
       @ be32 (int32 (int (length (entryData_of i))))
       @ descriptors
       @ entryData_of i)"
    by (simp add: serialized_eq descriptors_def)
  have 2: "int (length descriptors) = 16 * (len_entries i + 1)"
    by (simp add: descriptors_def length_indexBytes length_descriptors [OF length_offsets_of]
        length_sortedTags [symmetric])
  have 3: "length (entryData_of i) = length (entryData_after i (length (sortedTags i))) + 16"
    by (simp add: entryData_of_after length_data_eigenHeader)
  from 1 2 3 entryData_offsets_Some [of i] show ?thesis by blast
qed

text \<open>
  C2, as the code has it: for every index, with \<open>n\<close> entries, the 16 bytes that follow
  the count and the size are the descriptor of the sentinel: tag \<open>h\<close>, type Binary, offset
  = length of the data blob minus 16, which is where the sentinel payload starts in the
  blob, and count 16. The payload, the last 16 bytes of the blob, is the big-endian encoding
  of \<open>h\<close>, Binary, \<open>-(16 * (n + 1))\<close> and 16: the negative offset is in the payload, not in the
  descriptor.
\<close>

theorem eigenHeader_descriptor_payload:
  "\<exists>descriptors.
     serialized i = Some (
       [0x8e, 0xad, 0xe8, 0x01, 0, 0, 0, 0]
       @ be32 (int32 (len_entries i + 1))
       @ be32 (int32 (int (length (entryData_of i))))
       @ (be32 (int32 (h i)) @ be32 (int32 typeBinary)
            @ be32 (int32 (int (length (entryData_of i)) - 16)) @ be32 (int32 16))
       @ descriptors
       @ entryData_of i)
     \<and> int (length descriptors) = 16 * len_entries i
     \<and> int (length (entryData_of i)) - 16 = int (length (entryData_after i (length (sortedTags i))))
     \<and> entryData_of i =
         entryData_after i (length (sortedTags i))
           @ (be32 (int32 (h i)) @ be32 (int32 typeBinary)
                @ be32 (int32 (- (16 * (len_entries i + 1)))) @ be32 (int32 16))"
proof -
  define descriptors where "descriptors =
     concat (map (\<lambda>(tag, off). indexBytes (entries_at i tag) tag off)
                 (zip (sortedTags i) (offsets_of i)))"
  have 1: "serialized i = Some (
       [0x8e, 0xad, 0xe8, 0x01, 0, 0, 0, 0]
       @ be32 (int32 (len_entries i + 1))
       @ be32 (int32 (int (length (entryData_of i))))
       @ (be32 (int32 (h i)) @ be32 (int32 typeBinary)
            @ be32 (int32 (int (length (entryData_of i)) - 16)) @ be32 (int32 16))
       @ descriptors
       @ entryData_of i)"
    by (simp add: serialized_eq descriptors_def indexBytes_eq rpmtype_eigenHeader
        count_eigenHeader)
  have 2: "int (length descriptors) = 16 * len_entries i"
    by (simp add: descriptors_def length_descriptors [OF length_offsets_of]
        length_sortedTags [symmetric])
  have 3: "int (length (entryData_of i)) - 16
             = int (length (entryData_after i (length (sortedTags i))))"
    by (simp add: entryData_of_after length_data_eigenHeader)
  have 4: "entryData_of i =
         entryData_after i (length (sortedTags i))
           @ (be32 (int32 (h i)) @ be32 (int32 typeBinary)
                @ be32 (int32 (- (16 * (len_entries i + 1)))) @ be32 (int32 16))"
    by (simp add: entryData_of_after data_eigenHeader)
  from 1 2 3 4 show ?thesis by blast
qed

text \<open>
  C2 as the specification words it puts \<open>-(16 * (n + 1))\<close> in the offset field of the
  descriptor and makes payload and descriptor the same 16 bytes. On the empty index the
  offset field of the descriptor, bytes 24 to 27 of the output, is 0 and not -16, and the
  payload, the bytes from 32 on, differs from the descriptor, bytes 16 to 31.
\<close>

theorem eigenHeader_descriptor_offset_counterexample:
  "map_option (\<lambda>out. take 4 (drop 24 out)) (serialized (NewIndex immutable)) = Some [0, 0, 0, 0]
   \<and> be32 (int32 (- (16 * (len_entries (NewIndex immutable) + 1)))) = [0xff, 0xff, 0xff, 0xf0]
   \<and> map_option (\<lambda>out. take 4 (drop 24 out)) (serialized (NewIndex immutable))
       \<noteq> Some (be32 (int32 (- (16 * (len_entries (NewIndex immutable) + 1)))))
   \<and> map_option (\<lambda>out. take 16 (drop 16 out)) (serialized (NewIndex immutable))
       \<noteq> map_option (\<lambda>out. drop 32 out) (serialized (NewIndex immutable))"
  by code_simp

text \<open>
  C6: the output is the preamble, the count and the size, then the descriptor of the
  sentinel, then one 16-byte descriptor (tag, type, offset, count, each a big-endian 32-bit
  integer) for every entry, in strictly ascending order of the tags with the offsets
  recorded by the first loop, then the data blob; the tags are exactly those of the stored
  entries, and the data blob ends with the sentinel payload.
\<close>

theorem serialized_layout:
  "serialized i = Some (
     [0x8e, 0xad, 0xe8, 0x01, 0, 0, 0, 0]
     @ be32 (int32 (len_entries i + 1))
     @ be32 (int32 (int (length (entryData_of i))))
     @ (be32 (int32 (h i)) @ be32 (int32 typeBinary)
          @ be32 (int32 (int (length (entryData_of i)) - 16)) @ be32 (int32 16))
     @ concat (map (\<lambda>(tag, off).
                      be32 (int32 tag) @ be32 (int32 (rpmtype (entries_at i tag)))
                        @ be32 (int32 off) @ be32 (int32 (count (entries_at i tag))))
                 (zip (sortedTags i) (offsets_of i)))
     @ entryData_of i)
   \<and> sorted_wrt (<) (sortedTags i)
   \<and> set (sortedTags i) = dom (DAList.lookup (entries i))
   \<and> (\<forall>tag \<in> set (sortedTags i). DAList.lookup (entries i) tag = Some (entries_at i tag))
   \<and> entryData_offsets i = Some (entryData_of i, offsets_of i)
   \<and> length (offsets_of i) = length (sortedTags i)
   \<and> entryData_of i = entryData_after i (length (sortedTags i)) @ data (eigenHeader i)"
proof -
  have 1: "serialized i = Some (
     [0x8e, 0xad, 0xe8, 0x01, 0, 0, 0, 0]
     @ be32 (int32 (len_entries i + 1))
     @ be32 (int32 (int (length (entryData_of i))))
     @ (be32 (int32 (h i)) @ be32 (int32 typeBinary)
          @ be32 (int32 (int (length (entryData_of i)) - 16)) @ be32 (int32 16))
     @ concat (map (\<lambda>(tag, off).
                      be32 (int32 tag) @ be32 (int32 (rpmtype (entries_at i tag)))
                        @ be32 (int32 off) @ be32 (int32 (count (entries_at i tag))))
                 (zip (sortedTags i) (offsets_of i)))
     @ entryData_of i)"
    by (simp add: serialized_eq indexBytes_eq rpmtype_eigenHeader count_eigenHeader)
  have 2: "\<forall>tag \<in> set (sortedTags i). DAList.lookup (entries i) tag = Some (entries_at i tag)"
    by (simp add: lookup_sortedTags)
  from 1 2 sortedTags_strict [of i] set_sortedTags [of i] entryData_offsets_eq [of i]
  show ?thesis by blast
qed

text \<open>
  The statement at the sample index, with the whole output written out.
\<close>

theorem serialized_layout_witness:
  "set (sortedTags sample_index) = {1000, 1001, 1002}
   \<and> DAList.lookup (entries sample_index) 1001 = Some (Int32Entry [5])
   \<and> serialized sample_index = Some
      [0x8e, 0xad, 0xe8, 0x01, 0, 0, 0, 0,   0, 0, 0, 4,   0, 0, 0, 25,
       0, 0, 0, 63,     0, 0, 0, 7,   0, 0, 0, 9,   0, 0, 0, 16,
       0, 0, 0x03, 0xe8,   0, 0, 0, 8,   0, 0, 0, 0,   0, 0, 0, 1,
       0, 0, 0x03, 0xe9,   0, 0, 0, 4,   0, 0, 0, 4,   0, 0, 0, 1,
       0, 0, 0x03, 0xea,   0, 0, 0, 7,   0, 0, 0, 8,   0, 0, 0, 1,
       0x61, 0,   0, 0,   0, 0, 0, 5,   1,
       0, 0, 0, 63,   0, 0, 0, 7,   0xff, 0xff, 0xff, 0xc0,   0, 0, 0, 16]"
proof -
  have "1001 \<in> set (sortedTags sample_index)" by (simp add: sample_sortedTags)
  with serialized_layout [of sample_index]
  have "DAList.lookup (entries sample_index) 1001 = Some (entries_at sample_index 1001)"
    by blast
  moreover have "serialized sample_index = Some
      [0x8e, 0xad, 0xe8, 0x01, 0, 0, 0, 0,   0, 0, 0, 4,   0, 0, 0, 25,
       0, 0, 0, 63,     0, 0, 0, 7,   0, 0, 0, 9,   0, 0, 0, 16,
       0, 0, 0x03, 0xe8,   0, 0, 0, 8,   0, 0, 0, 0,   0, 0, 0, 1,
       0, 0, 0x03, 0xe9,   0, 0, 0, 4,   0, 0, 0, 4,   0, 0, 0, 1,
       0, 0, 0x03, 0xea,   0, 0, 0, 7,   0, 0, 0, 8,   0, 0, 0, 1,
       0x61, 0,   0, 0,   0, 0, 0, 5,   1,
       0, 0, 0, 63,   0, 0, 0, 7,   0xff, 0xff, 0xff, 0xc0,   0, 0, 0, 16]"
    by code_simp
  ultimately show ?thesis
    by (simp add: sample_sortedTags sample_entries_at)
qed

text \<open>
  C7: two indexes that hold the same mapping from tags to entries and the same region tag
  leave every writer in the same state with the same error, whatever the order in which
  their maps are traversed; in particular their serialized forms are equal.
\<close>

theorem Write_deterministic:
  assumes "DAList.lookup (entries i) = DAList.lookup (entries j)" and "h i = h j"
  shows "map_option snd (Write i w s) = map_option snd (Write j w s)
         \<and> serialized i = serialized j"
proof -
  have 1: "sortedTags i = sortedTags j" using assms(1) by (simp add: sortedTags_lookup)
  have 2: "entries_at i = entries_at j" using assms(1) by (simp add: entries_at_def fun_eq_iff)
  have 3: "len_entries i = len_entries j" using assms(1) by (simp add: len_entries_lookup)
  have a: "map_option snd (Write i w s) = map_option snd (Write j w s)"
    by (rule Write_cong [OF 1 2 3 assms(2)])
  have "map_option snd (Write i (Buffer_Write :: (byte list, unit) Writer) [])
          = map_option snd (Write j (Buffer_Write :: (byte list, unit) Writer) [])"
    by (rule Write_cong [OF 1 2 3 assms(2)])
  then have "map_option fst (map_option snd (Write i (Buffer_Write :: (byte list, unit) Writer) []))
          = map_option fst (map_option snd (Write j (Buffer_Write :: (byte list, unit) Writer) []))"
    by simp
  then have b: "serialized i = serialized j"
    by (simp add: serialized_def option.map_comp comp_def)
  from a b show ?thesis by blast
qed

text \<open>
  The statement at the two sample indexes, whose underlying lists differ in order.
\<close>

theorem Write_deterministic_witness:
  "DAList.lookup (entries sample_index) = DAList.lookup (entries sample_index')
   \<and> h sample_index = h sample_index'
   \<and> entries sample_index \<noteq> entries sample_index'
   \<and> serialized sample_index = serialized sample_index'"
proof -
  have l: "DAList.lookup (entries sample_index) = DAList.lookup (entries sample_index')"
    by (simp add: fun_eq_iff sample_index_def sample_index'_def Add_def NewIndex_def
        DAList.lookup_update)
  have hh: "h sample_index = h sample_index'"
    by (simp add: sample_index_def sample_index'_def Add_def NewIndex_def)
  have ne: "entries sample_index \<noteq> entries sample_index'"
    by (simp add: sample_index_def sample_index'_def Add_def NewIndex_def
        DAList.alist_eq_iff DAList.update.rep_eq DAList.empty.rep_eq)
  from Write_deterministic [OF l hh, of "Buffer_Write :: (byte list, unit) Writer" "[]"]
  have "serialized sample_index = serialized sample_index'"
    by (rule conjunct2)
  with l hh ne show ?thesis by blast
qed

text \<open>
  C9: \<open>Add\<close> stores the entry at the tag, replaces what was there, leaves every other tag
  and the region tag as they were; \<open>Write\<close> returns and leaves the index as it was, so that
  a call after it does what it would have done before it.
\<close>

theorem Add_Write_frame:
  "DAList.lookup (entries (Add tag e i)) = (DAList.lookup (entries i))(tag \<mapsto> e)
   \<and> h (Add tag e i) = h i
   \<and> map_option fst (Write i w s) = Some i
   \<and> Option.bind (Write i w s) (\<lambda>r. Write (fst r) w' s') = Write i w' s'"
proof -
  obtain r where r: "Write i w s = Some r" using Write_total [of i w s] by blast
  with Write_index [of i w s] have "fst r = i" by simp
  with r have "Option.bind (Write i w s) (\<lambda>r. Write (fst r) w' s') = Write i w' s'" by simp
  then show ?thesis
    by (simp add: Add_def fun_eq_iff DAList.lookup_update Write_index)
qed

section \<open>Errors of the writer\<close>

text \<open>
  C3 says that \<open>Write\<close> returns an error if and only if some write to the sink failed.
  The code reads the error of one of its writes only, the one of the count and the size
  (\<open>Write_error\<close>). On the empty index and a sink with room for 32 bytes the first three
  writes succeed, the fourth, which carries the data blob, is refused, and \<open>Write\<close>
  returns no error.
\<close>

theorem Write_drops_write_error:
  "map_option (\<lambda>r. snd (snd r))
     (Write (NewIndex immutable) (recording (limited 32)) ([], [])) = Some None
   \<and> map_option (\<lambda>r. map snd (snd (fst (snd r))))
       (Write (NewIndex immutable) (recording (limited 32)) ([], []))
       = Some [None, None, None, Some ''no space left'']"
  by code_simp

end
